theory Spec2Isabelle
  imports Main "HOL-Library.Word" "HOL-Library.Sublist"
begin

unbundle bit_operations_syntax

section \<open>Upload ingest: byte sources, digest, content sniffing, validation\<close>

text \<open>
A shallow embedding of the ingest pipeline of ai-q-main (src/byte_source.cpp,
src/ingest.cpp, test/test.cpp). Byte vectors are lists of 8-bit words; every
exception is a value of a sum type; the loop that drains a source is a partial function.
\<close>

subsection \<open>Byte sources and the bounded consumer\<close>

type_synonym u8 = "8 word"
type_synonym u32 = "32 word"
type_synonym u64 = "64 word"

text \<open>
The exceptions that can leave \<open>ingest\<close>. \<open>ReadError e\<close> is whatever the source's
\<open>read\<close> threw, propagated unchanged; \<open>BufferCeiling\<close> is
\<open>runtime_error("byte source exceeds buffer ceiling")\<close> of \<open>consumeToBuffer\<close>;
\<open>PayloadRange\<close> is \<open>runtime_error("payload size exceeds supported range")\<close> of
\<open>ingest\<close>; \<open>PersistError e\<close> is whatever the sink's \<open>persist\<close> threw.
\<close>

datatype 'e failure = ReadError 'e | BufferCeiling | PayloadRange | PersistError 'e

text \<open>
\<open>ByteSource::read(buffer, maxLen)\<close> (byte_source.hpp). The object's state is \<open>'s\<close>; a call
takes the caller's buffer and \<open>maxLen\<close> and either throws (\<open>Inl\<close>) or returns the
count, the buffer as the call left it, and the new state.
\<close>

type_synonym ('s, 'e) ByteSource = "'s \<Rightarrow> u8 list \<Rightarrow> nat \<Rightarrow> 'e + (nat \<times> u8 list \<times> 's)"

text \<open>
\<open>memcpy(buffer, bytes, length bytes)\<close>: the first bytes of the destination are overwritten,
the rest is kept.
\<close>

definition memcpy :: "u8 list \<Rightarrow> u8 list \<Rightarrow> u8 list" where
  "memcpy buffer bytes = bytes @ drop (length bytes) buffer"

text \<open>
\<open>VectorByteSource\<close> (ingest.cpp, lines 24-42), and equally \<open>MemoryByteSource\<close>
(test.cpp, lines 19-39), whose \<open>read\<close> is the same text: the backing bytes \<open>data_\<close> and
the cursor \<open>offset_\<close>.
\<close>

record VectorByteSource =
  data :: "u8 list"
  offset :: nat

definition VectorByteSource_read :: "(VectorByteSource, 'e) ByteSource" where
  "VectorByteSource_read src buffer maxLen =
     (if offset src \<ge> length (data src) \<or> maxLen = 0 then Inr (0, buffer, src)
      else
        let remaining = length (data src) - offset src;
            toCopy = (if remaining < maxLen then remaining else maxLen)
        in Inr (toCopy,
                memcpy buffer (take toCopy (drop (offset src) (data src))),
                src\<lparr>offset := offset src + toCopy\<rparr>))"

text \<open>
The \<open>while (true)\<close> loop of \<open>consumeToBuffer\<close> (byte_source.cpp, lines 22-30).
\<open>tot\<close> is the local \<open>total\<close>, \<open>buf\<close> the vector \<open>data\<close>. A source that never
returns 0 and never exceeds the ceiling keeps the loop running: the result is then \<open>None\<close>.
Sizes are natural numbers: \<open>total\<close> always equals \<open>data.size()\<close>, which a 64-bit
\<open>size_t\<close> holds without wrapping.
\<close>

partial_function (option) consumeLoop ::
  "('s, 'e) ByteSource \<Rightarrow> nat \<Rightarrow> 's \<Rightarrow> u8 list \<Rightarrow> nat \<Rightarrow> u8 list
     \<Rightarrow> ('e failure + (u8 list \<times> 's)) option" where
  "consumeLoop read maxBytes src scratch tot buf =
     (case read src scratch (length scratch) of
        Inl e \<Rightarrow> Some (Inl (ReadError e))
      | Inr (readCount, scratch', src') \<Rightarrow>
          if readCount = 0 then Some (Inr (buf, src'))
          else if tot + readCount > maxBytes then Some (Inl BufferCeiling)
          else consumeLoop read maxBytes src' scratch' (tot + readCount)
                 (buf @ take readCount scratch'))"

text \<open>
\<open>consumeToBuffer(src, maxBytes)\<close>: the scratch array of 64 KiB starts zeroed
(\<open>scratch{}\<close>); \<open>reserve\<close> has no observable effect and is left out.
\<close>

definition consumeToBuffer ::
  "('s, 'e) ByteSource \<Rightarrow> 's \<Rightarrow> nat \<Rightarrow> ('e failure + (u8 list \<times> 's)) option" where
  "consumeToBuffer read src maxBytes =
     consumeLoop read maxBytes src (replicate (64 * 1024) 0) 0 []"

text \<open>
What a source does when it is read \<open>n\<close> times with the scratch buffer, independently of any
ceiling: the list of (count returned, bytes taken from the scratch buffer), and whether it is still
flowing, has signalled end of stream, or has thrown.
\<close>

datatype ('s, 'e) progress = Flowing 's | Eof 's | Failed 'e

fun yielded ::
  "('s, 'e) ByteSource \<Rightarrow> nat \<Rightarrow> 's \<Rightarrow> u8 list \<Rightarrow> (nat \<times> u8 list) list \<times> ('s, 'e) progress" where
  "yielded read 0 src scratch = ([], Flowing src)"
| "yielded read (Suc n) src scratch =
     (case read src scratch (length scratch) of
        Inl e \<Rightarrow> ([], Failed e)
      | Inr (readCount, scratch', src') \<Rightarrow>
          if readCount = 0 then ([], Eof src')
          else (case yielded read n src' scratch' of
                  (rs, p) \<Rightarrow> ((readCount, take readCount scratch') # rs, p)))"

definition running_total :: "(nat \<times> u8 list) list \<Rightarrow> nat" where
  "running_total rs = sum_list (map fst rs)"

definition chunks_of :: "(nat \<times> u8 list) list \<Rightarrow> u8 list" where
  "chunks_of rs = concat (map snd rs)"

text \<open>
An arbitrary sequence of \<open>read\<close> calls, each with its own buffer and \<open>maxLen\<close>; the
result collects what each call copied to the start of its buffer.
\<close>

fun read_calls ::
  "('s, 'e) ByteSource \<Rightarrow> 's \<Rightarrow> (u8 list \<times> nat) list \<Rightarrow> 'e + (u8 list list \<times> 's)" where
  "read_calls read src [] = Inr ([], src)"
| "read_calls read src ((buffer, maxLen) # calls) =
     (case read src buffer maxLen of
        Inl e \<Rightarrow> Inl e
      | Inr (n, buffer', src') \<Rightarrow>
          (case read_calls read src' calls of
             Inl e \<Rightarrow> Inl e
           | Inr (chunks, src'') \<Rightarrow> Inr (take n buffer' # chunks, src'')))"

subsection \<open>Content sniffing and the content-type comparator\<close>

text \<open>
A character literal compared with a byte, as in \<open>bytes[0] == '%'\<close>.
\<close>

definition byte :: "char \<Rightarrow> u8" where
  "byte c = of_char c"

text \<open>
\<open>std::string::find(needle)\<close>: the position of the first occurrence, \<open>None\<close> for
\<open>npos\<close>.
\<close>

fun find_str :: "'a list \<Rightarrow> 'a list \<Rightarrow> nat option" where
  "find_str [] needle = (if needle = [] then Some 0 else None)"
| "find_str (c # cs) needle =
     (if take (length needle) (c # cs) = needle then Some 0
      else map_option Suc (find_str cs needle))"

definition pngMagic :: "u8 list" where
  "pngMagic = [0x89, 0x50, 0x4E, 0x47, 0x0D, 0x0A, 0x1A, 0x0A]"

text \<open>
\<open>detectMime\<close> (ingest.cpp, lines 160-183). \<open>std::equal\<close> over the eight magic bytes
compares them with the first eight bytes of the buffer; \<open>signature\<close> is the first
\<open>min(size, 4096)\<close> bytes.
\<close>

definition detectMime :: "u8 list \<Rightarrow> string" where
  "detectMime bytes =
     (if length bytes \<ge> 4 \<and>
         (bytes ! 0 = byte CHR ''%'' \<and> bytes ! 1 = byte CHR ''P'' \<and>
          bytes ! 2 = byte CHR ''D'' \<and> bytes ! 3 = byte CHR ''F'')
      then ''application/pdf''
      else if length bytes \<ge> 8 \<and> take (length pngMagic) bytes = pngMagic
      then ''image/png''
      else if length bytes \<ge> 4 \<and>
         (bytes ! 0 = byte CHR ''P'' \<and> bytes ! 1 = byte CHR ''K'' \<and>
          bytes ! 2 = 0x03 \<and> bytes ! 3 = 0x04) \<and>
         (let signature = take (min (length bytes) 4096) bytes
          in find_str signature (map byte ''word/'') \<noteq> None \<or>
             find_str signature (map byte ''[Content_Types].xml'') \<noteq> None)
      then ''application/vnd.openxmlformats-officedocument.wordprocessingml.document''
      else ''application/octet-stream'')"

text \<open>
\<open>string_view::find(';')\<close> and \<open>substr(0, semi)\<close>, where a count of \<open>npos\<close>
(\<open>None\<close>) means up to the end.
\<close>

fun find_char :: "string \<Rightarrow> char \<Rightarrow> nat option" where
  "find_char [] ch = None"
| "find_char (c # cs) ch = (if c = ch then Some 0 else map_option Suc (find_char cs ch))"

definition substr :: "string \<Rightarrow> nat \<Rightarrow> nat option \<Rightarrow> string" where
  "substr s pos count = (case count of None \<Rightarrow> drop pos s | Some n \<Rightarrow> take n (drop pos s))"

text \<open>
\<open>isspace\<close> and \<open>tolower\<close> of the C locale, which is the one in force since the program
never calls \<open>setlocale\<close>.
\<close>

definition isspace :: "char \<Rightarrow> bool" where
  "isspace ch \<longleftrightarrow> ch = CHR '' '' \<or> ch = CHR 0x09 \<or> ch = CHR 0x0A \<or> ch = CHR 0x0B \<or>
     ch = CHR 0x0C \<or> ch = CHR 0x0D"

definition tolower :: "char \<Rightarrow> char" where
  "tolower ch = (let n = (of_char ch :: nat) in if 65 \<le> n \<and> n \<le> 90 then char_of (n + 32) else ch)"

text \<open>
\<open>std::find_if\<close>, as the index of the first element satisfying the predicate, or the length
if there is none.
\<close>

fun find_if :: "('a \<Rightarrow> bool) \<Rightarrow> 'a list \<Rightarrow> nat" where
  "find_if p [] = 0"
| "find_if p (x # xs) = (if p x then 0 else Suc (find_if p xs))"

text \<open>
\<open>stripMime\<close> (ingest.cpp, lines 188-196): cut at the first semicolon, erase the leading
white space, erase from \<open>find_if(rbegin, rend, notSpace).base()\<close> to the end, lower-case.
\<close>

definition stripMime :: "string \<Rightarrow> string" where
  "stripMime mime =
     (let semi = find_char mime CHR '';'';
          base = substr mime 0 semi;
          notSpace = (\<lambda>ch. \<not> isspace ch);
          base = drop (find_if notSpace base) base;
          base = take (length base - find_if notSpace (rev base)) base
      in map tolower base)"

definition equalsIgnoreParams :: "string \<Rightarrow> string \<Rightarrow> bool" where
  "equalsIgnoreParams lhs rhs \<longleftrightarrow> stripMime lhs = stripMime rhs"

fun isAcceptedMime :: "string \<Rightarrow> string list \<Rightarrow> bool" where
  "isAcceptedMime detected [] = False"
| "isAcceptedMime detected (candidate # accepted) =
     (if equalsIgnoreParams detected candidate then True else isAcceptedMime detected accepted)"

text \<open>
The comparator as the specification words it: discard everything from the first semicolon
on, trim white space at both ends, fold to lower case.
\<close>

definition trim :: "string \<Rightarrow> string" where
  "trim s = rev (dropWhile isspace (rev (dropWhile isspace s)))"

definition strip_spec :: "string \<Rightarrow> string" where
  "strip_spec s = map tolower (trim (takeWhile (\<lambda>c. c \<noteq> CHR '';'') s))"

text \<open>
A string with no white space at either end.
\<close>

definition trimmed :: "string \<Rightarrow> bool" where
  "trimmed u \<longleftrightarrow> u = [] \<or> (\<not> isspace (hd u) \<and> \<not> isspace (last u))"

subsection \<open>The digest\<close>

text \<open>
The SHA-256 utilities of ingest.cpp (lines 45-154), over 32-bit words.
\<close>

definition kSha256K :: "u32 list" where
  "kSha256K =
    [0x428A2F98, 0x71374491, 0xB5C0FBCF, 0xE9B5DBA5, 0x3956C25B, 0x59F111F1, 0x923F82A4, 0xAB1C5ED5,
     0xD807AA98, 0x12835B01, 0x243185BE, 0x550C7DC3, 0x72BE5D74, 0x80DEB1FE, 0x9BDC06A7, 0xC19BF174,
     0xE49B69C1, 0xEFBE4786, 0x0FC19DC6, 0x240CA1CC, 0x2DE92C6F, 0x4A7484AA, 0x5CB0A9DC, 0x76F988DA,
     0x983E5152, 0xA831C66D, 0xB00327C8, 0xBF597FC7, 0xC6E00BF3, 0xD5A79147, 0x06CA6351, 0x14292967,
     0x27B70A85, 0x2E1B2138, 0x4D2C6DFC, 0x53380D13, 0x650A7354, 0x766A0ABB, 0x81C2C92E, 0x92722C85,
     0xA2BFE8A1, 0xA81A664B, 0xC24B8B70, 0xC76C51A3, 0xD192E819, 0xD6990624, 0xF40E3585, 0x106AA070,
     0x19A4C116, 0x1E376C08, 0x2748774C, 0x34B0BCB5, 0x391C0CB3, 0x4ED8AA4A, 0x5B9CCA4F, 0x682E6FF3,
     0x748F82EE, 0x78A5636F, 0x84C87814, 0x8CC70208, 0x90BEFFFA, 0xA4506CEB, 0xBEF9A3F7, 0xC67178F2]"

definition rotr :: "u32 \<Rightarrow> nat \<Rightarrow> u32" where
  "rotr v bits = drop_bit bits v OR push_bit (32 - bits) v"

definition sha256StateInit :: "u32 list" where
  "sha256StateInit =
    [0x6A09E667, 0xBB67AE85, 0x3C6EF372, 0xA54FF53A, 0x510E527F, 0x9B05688C, 0x1F83D9AB, 0x5BE0CD19]"

definition load_be32 :: "u8 list \<Rightarrow> nat \<Rightarrow> u32" where
  "load_be32 block i =
     push_bit 24 (ucast (block ! (i * 4))) OR push_bit 16 (ucast (block ! (i * 4 + 1))) OR
     push_bit 8 (ucast (block ! (i * 4 + 2))) OR ucast (block ! (i * 4 + 3))"

text \<open>
The message schedule loop \<open>for (i = 16; i < 64; ++i)\<close>: the array \<open>w\<close> after
iteration \<open>i\<close> is the list of its first \<open>i + 1\<close> entries.
\<close>

definition schedule_step :: "u32 list \<Rightarrow> nat \<Rightarrow> u32" where
  "schedule_step w i =
     (let s0 = rotr (w ! (i - 15)) 7 XOR rotr (w ! (i - 15)) 18 XOR drop_bit 3 (w ! (i - 15));
          s1 = rotr (w ! (i - 2)) 17 XOR rotr (w ! (i - 2)) 19 XOR drop_bit 10 (w ! (i - 2))
      in w ! (i - 16) + s0 + w ! (i - 7) + s1)"

definition schedule :: "u8 list \<Rightarrow> u32 list" where
  "schedule block =
     fold (\<lambda>i w. w @ [schedule_step w i]) [16..<64] (map (load_be32 block) [0..<16])"

type_synonym regs = "u32 \<times> u32 \<times> u32 \<times> u32 \<times> u32 \<times> u32 \<times> u32 \<times> u32"

definition round_step :: "u32 list \<Rightarrow> nat \<Rightarrow> regs \<Rightarrow> regs" where
  "round_step w i = (\<lambda>(a, b, c, d, e, f, g, h).
     let S1 = rotr e 6 XOR rotr e 11 XOR rotr e 25;
         ch = (e AND f) XOR ((NOT e) AND g);
         temp1 = h + S1 + ch + kSha256K ! i + w ! i;
         S0 = rotr a 2 XOR rotr a 13 XOR rotr a 22;
         maj = (a AND b) XOR (a AND c) XOR (b AND c);
         temp2 = S0 + maj
     in (temp1 + temp2, a, b, c, d + temp1, e, f, g))"

definition sha256ProcessBlock :: "u32 list \<Rightarrow> u8 list \<Rightarrow> u32 list" where
  "sha256ProcessBlock state block =
     (let w = schedule block;
          (a, b, c, d, e, f, g, h) =
             fold (round_step w) [0..<64]
               (state ! 0, state ! 1, state ! 2, state ! 3, state ! 4, state ! 5, state ! 6, state ! 7)
      in [state ! 0 + a, state ! 1 + b, state ! 2 + c, state ! 3 + d,
          state ! 4 + e, state ! 5 + f, state ! 6 + g, state ! 7 + h])"

text \<open>
The loop \<open>while (processed + blockSize <= data.size())\<close> of \<open>sha256Hex\<close>; the block
pointer \<open>data.data() + processed\<close> is the list from that position on.
\<close>

function sha256Blocks :: "u32 list \<Rightarrow> u8 list \<Rightarrow> nat \<Rightarrow> u32 list \<times> nat" where
  "sha256Blocks state bytes processed =
     (if processed + 64 \<le> length bytes
      then sha256Blocks (sha256ProcessBlock state (drop processed bytes)) bytes (processed + 64)
      else (state, processed))"
  by pat_completeness auto
termination
  by (relation "measure (\<lambda>(state, bytes, processed). length bytes - processed)") auto

declare sha256Blocks.simps [simp del]

text \<open>
\<open>oss << hex << setfill('0') << setw(8) << word\<close>: the digits of the value in base 16,
lower case, padded on the left to eight characters.
\<close>

definition hex_digit :: "nat \<Rightarrow> char" where
  "hex_digit d = ''0123456789abcdef'' ! d"

fun hex_digits :: "nat \<Rightarrow> string" where
  "hex_digits n = (if n < 16 then [hex_digit n] else hex_digits (n div 16) @ [hex_digit (n mod 16)])"

declare hex_digits.simps [simp del]

definition setw_fill :: "nat \<Rightarrow> char \<Rightarrow> string \<Rightarrow> string" where
  "setw_fill w c s = replicate (w - length s) c @ s"

definition sha256Hex :: "u8 list \<Rightarrow> string" where
  "sha256Hex bytes =
     (let state = sha256StateInit;
          bitLength = (of_nat (length bytes) :: u64) * 8;
          blockSize = 64;
          (state, processed) = sha256Blocks state bytes 0;
          finalBlock = replicate 128 0;
          remaining = length bytes - processed;
          finalBlock = memcpy finalBlock (take remaining (drop processed bytes));
          finalBlock = finalBlock[remaining := 0x80];
          paddingIndex = (if remaining + 9 \<le> blockSize then blockSize - 8 else 2 * blockSize - 8);
          finalBlock = fold (\<lambda>i fb. fb[paddingIndex + i := ucast (drop_bit (56 - i * 8) bitLength AND 0xFF)])
                         [0..<8] finalBlock;
          state = sha256ProcessBlock state finalBlock;
          state = (if paddingIndex \<noteq> blockSize - 8
                   then sha256ProcessBlock state (drop blockSize finalBlock) else state)
      in concat (map (\<lambda>word. setw_fill 8 CHR ''0'' (hex_digits (unat word))) state))"

subsection \<open>Validation and the ingest operation\<close>

text \<open>
The structures of ingest.hpp. The \<open>int64_t\<close> fields are 64-bit words read as two's
complement by \<open>sint\<close>. The field \<open>size\<close> of \<open>IngestResult\<close> is
\<open>size_result\<close> here.
\<close>

record UploadMeta =
  filename :: string
  claimedMime :: string
  hasContentLength :: bool
  contentLength :: u64

record IngestConfig =
  maxContentLength :: u64
  acceptedMimes :: "string list"

record IngestResult =
  detectedMime :: string
  size_result :: u64
  sha256 :: string
  ok :: bool
  errors :: "string list"

text \<open>
\<open>validateLengths\<close> and \<open>validateMime\<close> (ingest.cpp, lines 220-244): each appends to the
vector of errors it is given.
\<close>

definition validateLengths :: "UploadMeta \<Rightarrow> u64 \<Rightarrow> u64 \<Rightarrow> string list \<Rightarrow> string list" where
  "validateLengths meta sz maxLen errs =
     (let errs =
            (if hasContentLength meta then
               (if sint (contentLength meta) < 0 then errs @ [''contentLength is negative'']
                else if sz \<noteq> contentLength meta then errs @ [''contentLength mismatch'']
                else errs)
             else errs)
      in if 0 \<le> sint maxLen \<and> sint sz > sint maxLen
         then errs @ [''exceeds maxContentLength''] else errs)"

definition validateMime :: "UploadMeta \<Rightarrow> string \<Rightarrow> string list \<Rightarrow> string list \<Rightarrow> string list" where
  "validateMime meta detected accepted errs =
     (let errs =
            (if claimedMime meta \<noteq> [] \<and> \<not> equalsIgnoreParams (claimedMime meta) detected
             then errs @ [''claimedMime does not match detectedMime''] else errs)
      in if accepted \<noteq> [] \<and> \<not> isAcceptedMime detected accepted
         then errs @ [''detectedMime not accepted''] else errs)"

text \<open>
\<open>numeric_limits<size_t>::max()\<close> and \<open>numeric_limits<int64_t>::max()\<close> on a platform
with a 64-bit \<open>size_t\<close>.
\<close>

definition SIZE_MAX :: nat where
  "SIZE_MAX = 2 ^ 64 - 1"

definition INT64_MAX :: nat where
  "INT64_MAX = 2 ^ 63 - 1"

text \<open>
The sink: \<open>persist(meta, result, data)\<close> receives the replay source and either throws or
returns with a new sink state. Each invocation is recorded as the triple of its arguments.
\<close>

type_synonym persist_call = "UploadMeta \<times> IngestResult \<times> VectorByteSource"

type_synonym ('k, 'e) IngestSink =
  "UploadMeta \<Rightarrow> IngestResult \<Rightarrow> VectorByteSource \<Rightarrow> 'k \<Rightarrow> 'e + 'k"

text \<open>
\<open>ingest\<close> (ingest.cpp, lines 253-272). The result is \<open>None\<close> when draining the source
never ends; otherwise the outcome (an exception, or the sink state after a normal return)
together with the list of \<open>persist\<close> invocations made.
\<close>

definition ingest ::
  "UploadMeta \<Rightarrow> IngestConfig \<Rightarrow> ('s, 'e) ByteSource \<Rightarrow> 's \<Rightarrow> ('k, 'e) IngestSink \<Rightarrow> 'k
     \<Rightarrow> (('e failure + 'k) \<times> persist_call list) option" where
  "ingest meta cfg read source persist sink =
     (case consumeToBuffer read source SIZE_MAX of
        None \<Rightarrow> None
      | Some (Inl e) \<Rightarrow> Some (Inl e, [])
      | Some (Inr (buffer, source')) \<Rightarrow>
          if length buffer > INT64_MAX then Some (Inl PayloadRange, [])
          else
            let sz = (of_nat (length buffer) :: u64);
                detected = detectMime buffer;
                digest = sha256Hex buffer;
                errs = validateLengths meta sz (maxContentLength cfg) [];
                errs = validateMime meta detected (acceptedMimes cfg) errs;
                result = \<lparr>detectedMime = detected, size_result = sz, sha256 = digest,
                          ok = (errs = []), errors = errs\<rparr>;
                replay = \<lparr>data = buffer, offset = 0\<rparr>
            in (case persist meta result replay sink of
                  Inl e \<Rightarrow> Some (Inl (PersistError e), [(meta, result, replay)])
                | Inr sink' \<Rightarrow> Some (Inr sink', [(meta, result, replay)])))"

text \<open>
\<open>RecordingSink\<close> of test.cpp (lines 71-89): \<open>persist\<close> drains the replay source through
a buffer of 4096 bytes.
\<close>

record RecordingSink =
  lastMeta :: "UploadMeta option"
  lastResult :: "IngestResult option"
  forwarded :: "u8 list"
  forwardedBytes :: nat

function RecordingSink_drain ::
  "VectorByteSource \<Rightarrow> u8 list \<Rightarrow> u8 list \<Rightarrow> nat \<Rightarrow> 'e + (u8 list \<times> nat)" where
  "RecordingSink_drain src buffer fwd n =
     (case (VectorByteSource_read src buffer (length buffer) :: 'e + (nat \<times> u8 list \<times> VectorByteSource)) of
        Inl e \<Rightarrow> Inl e
      | Inr (k, buffer', src') \<Rightarrow>
          if k = 0 then Inr (fwd, n)
          else RecordingSink_drain src' buffer' (fwd @ take k buffer') (n + k))"
  by pat_completeness auto
termination
  by (relation "measure (\<lambda>(src, buffer, fwd, n). length (data src) - offset src)")
     (auto simp: VectorByteSource_read_def Let_def neq_Nil_conv split: if_splits)

declare RecordingSink_drain.simps [simp del]

definition RecordingSink_persist :: "(RecordingSink, 'e) IngestSink" where
  "RecordingSink_persist meta result replay sink =
     (case RecordingSink_drain replay (replicate 4096 0) [] 0 of
        Inl e \<Rightarrow> Inl e
      | Inr (fwd, n) \<Rightarrow>
          Inr \<lparr>lastMeta = Some meta, lastResult = Some result, forwarded = fwd, forwardedBytes = n\<rparr>)"

text \<open>
The inputs of \<open>testTinyInput\<close> (test.cpp): an empty upload with no declared length.
\<close>

definition tinyMeta :: UploadMeta where
  "tinyMeta = \<lparr>filename = ''empty.bin'', claimedMime = ''application/octet-stream'',
               hasContentLength = False, contentLength = 0\<rparr>"

definition tinyCfg :: IngestConfig where
  "tinyCfg = \<lparr>maxContentLength = 1024,
              acceptedMimes = [''application/octet-stream'', ''application/pdf'']\<rparr>"


definition emptySink :: RecordingSink where
  "emptySink = \<lparr>lastMeta = None, lastResult = None, forwarded = [], forwardedBytes = 0\<rparr>"

section \<open>Properties of the consumer and of the in-memory source\<close>

lemma running_total_simps [simp]:
  "running_total [] = 0" "running_total (r # rs) = fst r + running_total rs"
  by (simp_all add: running_total_def)

lemma chunks_of_simps [simp]:
  "chunks_of [] = []" "chunks_of (r # rs) = snd r @ chunks_of rs"
  by (simp_all add: chunks_of_def)

lemma consumeLoop_eof:
  "yielded read n src scratch = (rs, Eof src') \<Longrightarrow> tot + running_total rs \<le> maxBytes \<Longrightarrow>
   consumeLoop read maxBytes src scratch tot buf = Some (Inr (buf @ chunks_of rs, src'))"
proof (induction n arbitrary: src scratch tot buf rs)
  case 0
  then show ?case by simp
next
  case (Suc n)
  show ?case
  proof (cases "read src scratch (length scratch)")
    case (Inl e)
    with Suc.prems show ?thesis by simp
  next
    case (Inr r)
    obtain k sc s1 where r: "r = (k, sc, s1)" by (cases r) auto
    show ?thesis
    proof (cases "k = 0")
      case True
      with Suc.prems Inr r show ?thesis
        by (subst consumeLoop.simps) simp
    next
      case False
      obtain cs p where y: "yielded read n s1 sc = (cs, p)" by (cases "yielded read n s1 sc") auto
      from Suc.prems(1) Inr r False y have ch: "rs = (k, take k sc) # cs" and p: "p = Eof src'"
        by auto
      from Suc.prems(2) ch have b: "(tot + k) + running_total cs \<le> maxBytes"
        by simp
      from Suc.IH [OF y [unfolded p] b]
      have "consumeLoop read maxBytes s1 sc (tot + k) (buf @ take k sc) =
            Some (Inr ((buf @ take k sc) @ chunks_of cs, src'))" .
      moreover from b have "\<not> maxBytes < tot + k" by simp
      ultimately show ?thesis using Inr r False ch
        by (subst consumeLoop.simps) simp
    qed
  qed
qed

lemma consumeLoop_failed:
  "yielded read n src scratch = (rs, Failed e) \<Longrightarrow> tot + running_total rs \<le> maxBytes \<Longrightarrow>
   consumeLoop read maxBytes src scratch tot buf = Some (Inl (ReadError e))"
proof (induction n arbitrary: src scratch tot buf rs)
  case 0
  then show ?case by simp
next
  case (Suc n)
  show ?case
  proof (cases "read src scratch (length scratch)")
    case (Inl e')
    with Suc.prems show ?thesis by (subst consumeLoop.simps) simp
  next
    case (Inr r)
    obtain k sc s1 where r: "r = (k, sc, s1)" by (cases r) auto
    show ?thesis
    proof (cases "k = 0")
      case True
      with Suc.prems Inr r show ?thesis by simp
    next
      case False
      obtain cs p where y: "yielded read n s1 sc = (cs, p)" by (cases "yielded read n s1 sc") auto
      from Suc.prems(1) Inr r False y have ch: "rs = (k, take k sc) # cs" and p: "p = Failed e"
        by auto
      from Suc.prems(2) ch have b: "(tot + k) + running_total cs \<le> maxBytes"
        by simp
      from Suc.IH [OF y [unfolded p] b]
      have "consumeLoop read maxBytes s1 sc (tot + k) (buf @ take k sc) = Some (Inl (ReadError e))" .
      moreover from b have "\<not> maxBytes < tot + k" by simp
      ultimately show ?thesis using Inr r False ch
        by (subst consumeLoop.simps) simp
    qed
  qed
qed

lemma consumeLoop_ceiling:
  "yielded read n src scratch = (rs, p) \<Longrightarrow> maxBytes < tot + running_total rs \<Longrightarrow>
   tot \<le> maxBytes \<Longrightarrow>
   consumeLoop read maxBytes src scratch tot buf = Some (Inl BufferCeiling)"
proof (induction n arbitrary: src scratch tot buf rs)
  case 0
  then show ?case by simp
next
  case (Suc n)
  show ?case
  proof (cases "read src scratch (length scratch)")
    case (Inl e')
    with Suc.prems show ?thesis by simp
  next
    case (Inr r)
    obtain k sc s1 where r: "r = (k, sc, s1)" by (cases r) auto
    show ?thesis
    proof (cases "k = 0")
      case True
      with Suc.prems Inr r show ?thesis by simp
    next
      case False
      obtain cs q where y: "yielded read n s1 sc = (cs, q)" by (cases "yielded read n s1 sc") auto
      from Suc.prems(1) Inr r False y have ch: "rs = (k, take k sc) # cs" and p: "q = p"
        by auto
      show ?thesis
      proof (cases "maxBytes < tot + k")
        case True
        with Inr r False show ?thesis by (subst consumeLoop.simps) simp
      next
        case over: False
        from Suc.prems(2) ch have b: "maxBytes < (tot + k) + running_total cs"
          by simp
        from over have "tot + k \<le> maxBytes" by simp
        from Suc.IH [OF y [unfolded p] b this]
        have "consumeLoop read maxBytes s1 sc (tot + k) (buf @ take k sc) = Some (Inl BufferCeiling)" .
        with over show ?thesis using Inr r False
          by (subst consumeLoop.simps) simp
      qed
    qed
  qed
qed

lemma consumeLoop_trace:
  "consumeLoop read maxBytes src scratch tot buf = Some out \<Longrightarrow>
   tot \<le> maxBytes \<longrightarrow>
   (\<exists>n rs p. yielded read n src scratch = (rs, p) \<and>
     (case out of
        Inr (b, src') \<Rightarrow> p = Eof src' \<and> b = buf @ chunks_of rs \<and> tot + running_total rs \<le> maxBytes
      | Inl BufferCeiling \<Rightarrow> maxBytes < tot + running_total rs
      | Inl (ReadError e) \<Rightarrow> p = Failed e \<and> tot + running_total rs \<le> maxBytes
      | Inl _ \<Rightarrow> False))"
proof (induction rule: consumeLoop.raw_induct [rotated 1, consumes 1])
  case (1 loop read maxBytes src scratch tot buf out)
  show ?case
  proof
    assume inv: "tot \<le> maxBytes"
    let ?Q = "\<lambda>tot buf rs p. (case out of
        Inr (b, src') \<Rightarrow> p = Eof src' \<and> b = buf @ chunks_of rs \<and> tot + running_total rs \<le> maxBytes
      | Inl BufferCeiling \<Rightarrow> maxBytes < tot + running_total rs
      | Inl (ReadError e) \<Rightarrow> p = Failed e \<and> tot + running_total rs \<le> maxBytes
      | Inl _ \<Rightarrow> False)"
    show "\<exists>n rs p. yielded read n src scratch = (rs, p) \<and> ?Q tot buf rs p"
    proof (cases "read src scratch (length scratch)")
      case (Inl e)
      with 1(2) have "out = Inl (ReadError e)" by simp
      moreover from Inl have "yielded read (Suc 0) src scratch = ([], Failed e)" by simp
      ultimately show ?thesis using inv
        by (intro exI [of _ "Suc 0"] exI [of _ "[]"] exI [of _ "Failed e"]) simp
    next
      case (Inr r)
      obtain k sc s1 where r: "r = (k, sc, s1)" by (cases r) auto
      show ?thesis
      proof (cases "k = 0")
        case True
        with 1(2) Inr r have "out = Inr (buf, s1)" by simp
        moreover from Inr r True have "yielded read (Suc 0) src scratch = ([], Eof s1)" by simp
        ultimately show ?thesis using inv
          by (intro exI [of _ "Suc 0"] exI [of _ "[]"] exI [of _ "Eof s1"]) simp
      next
        case False
        show ?thesis
        proof (cases "maxBytes < tot + k")
          case True
          with 1(2) Inr r False have "out = Inl BufferCeiling" by simp
          moreover from Inr r False
          have "yielded read (Suc 0) src scratch = ([(k, take k sc)], Flowing s1)" by simp
          ultimately show ?thesis using True
            by (intro exI [of _ "Suc 0"] exI [of _ "[(k, take k sc)]"] exI [of _ "Flowing s1"]) simp
        next
          case over: False
          with 1(2) Inr r False have "loop read maxBytes s1 sc (tot + k) (buf @ take k sc) = Some out"
            by simp
          from 1(1) [OF this] over obtain n rs p where
            y: "yielded read n s1 sc = (rs, p)" and
            c: "?Q (tot + k) (buf @ take k sc) rs p" by auto
          from Inr r False y have "yielded read (Suc n) src scratch = ((k, take k sc) # rs, p)" by simp
          moreover from c have "?Q tot buf ((k, take k sc) # rs) p"
            by (auto split: sum.splits failure.splits simp: add.assoc)
          ultimately show ?thesis by blast
        qed
      qed
    qed
  qed
qed

lemma VectorByteSource_read_Inr:
  "VectorByteSource_read src buffer maxLen =
     Inr (min maxLen (length (data src) - offset src),
          take (min maxLen (length (data src) - offset src)) (drop (offset src) (data src))
            @ drop (min maxLen (length (data src) - offset src)) buffer,
          src\<lparr>offset := offset src + min maxLen (length (data src) - offset src)\<rparr>)"
  by (auto simp: VectorByteSource_read_def memcpy_def Let_def min_def)

lemma read_calls_VectorByteSource:
  "offset src \<le> length (data src) \<Longrightarrow>
   \<exists>chunks src'. read_calls (VectorByteSource_read :: (VectorByteSource, 'e) ByteSource) src calls
        = Inr (chunks, src') \<and>
      data src' = data src \<and> offset src' = offset src + length (concat chunks) \<and>
      offset src' \<le> length (data src) \<and>
      concat chunks = take (length (concat chunks)) (drop (offset src) (data src))"
proof (induction calls arbitrary: src)
  case Nil
  then show ?case by simp
next
  case (Cons c calls)
  obtain buffer maxLen where c: "c = (buffer, maxLen)" by (cases c) auto
  let ?n = "min maxLen (length (data src) - offset src)"
  let ?s1 = "src\<lparr>offset := offset src + ?n\<rparr>"
  let ?chunk = "take ?n (drop (offset src) (data src))"
  have len: "length ?chunk = ?n" by simp
  from Cons.prems have "offset ?s1 \<le> length (data ?s1)" by simp
  from Cons.IH [OF this] obtain chunks src' where
    rc: "read_calls (VectorByteSource_read :: (VectorByteSource, 'e) ByteSource) ?s1 calls
           = Inr (chunks, src')" and
    d': "data src' = data ?s1" and
    o': "offset src' = offset ?s1 + length (concat chunks)" and
    b': "offset src' \<le> length (data ?s1)" and
    cc': "concat chunks = take (length (concat chunks)) (drop (offset ?s1) (data ?s1))"
    by (elim exE conjE) (rule that, assumption+)
  from d' have d: "data src' = data src" by simp
  from o' have o: "offset src' = offset src + ?n + length (concat chunks)" by simp
  from b' have b: "offset src' \<le> length (data src)" by simp
  from cc' have cc: "concat chunks = take (length (concat chunks)) (drop (offset src + ?n) (data src))"
    by simp
  have rd: "read_calls (VectorByteSource_read :: (VectorByteSource, 'e) ByteSource) src (c # calls)
              = Inr (?chunk # chunks, src')"
    unfolding c by (simp add: VectorByteSource_read_Inr rc)
  have "?chunk @ concat chunks = take (?n + length (concat chunks)) (drop (offset src) (data src))"
  proof -
    have "take (?n + length (concat chunks)) (drop (offset src) (data src)) =
          ?chunk @ take (length (concat chunks)) (drop ?n (drop (offset src) (data src)))"
      by (simp only: take_add)
    also have "drop ?n (drop (offset src) (data src)) = drop (offset src + ?n) (data src)"
      by (simp add: add.commute)
    finally show ?thesis using cc by simp
  qed
  with rd d o b len show ?case by (simp add: add.assoc)
qed

lemma consumeLoop_VectorByteSource:
  "offset src \<le> length (data src) \<Longrightarrow> 0 < length scratch \<Longrightarrow>
   tot + (length (data src) - offset src) \<le> maxBytes \<Longrightarrow>
   consumeLoop (VectorByteSource_read :: (VectorByteSource, 'e) ByteSource) maxBytes src scratch tot buf =
     Some (Inr (buf @ drop (offset src) (data src), src\<lparr>offset := length (data src)\<rparr>))"
proof (induction "length (data src) - offset src" arbitrary: src scratch tot buf rule: less_induct)
  case less
  let ?n = "min (length scratch) (length (data src) - offset src)"
  let ?s1 = "src\<lparr>offset := offset src + ?n\<rparr>"
  let ?chunk = "take ?n (drop (offset src) (data src))"
  let ?sc = "?chunk @ drop ?n scratch"
  show ?case
  proof (cases "offset src = length (data src)")
    case True
    then have "src\<lparr>offset := length (data src)\<rparr> = src" by simp
    with True show ?thesis
      by (subst consumeLoop.simps) (simp add: VectorByteSource_read_Inr)
  next
    case False
    with less.prems have pos: "0 < ?n" by simp
    have tk: "take ?n ?sc = ?chunk" by simp
    have h1: "length (data ?s1) - offset ?s1 < length (data src) - offset src"
    proof -
      from False less.prems(1) have "offset src < length (data src)" by simp
      with pos have "length (data src) - (offset src + ?n) < length (data src) - offset src"
        by arith
      then show ?thesis by simp
    qed
    have h2: "offset ?s1 \<le> length (data ?s1)" using less.prems(1) by simp
    have h3: "0 < length ?sc" using pos by simp
    have h4: "tot + ?n + (length (data ?s1) - offset ?s1) \<le> maxBytes"
      using less.prems by simp
    have "consumeLoop (VectorByteSource_read :: (VectorByteSource, 'e) ByteSource) maxBytes ?s1 ?sc (tot + ?n) (buf @ ?chunk) =
          Some (Inr ((buf @ ?chunk) @ drop (offset ?s1) (data ?s1), ?s1\<lparr>offset := length (data ?s1)\<rparr>))"
      by (rule less.hyps [OF h1 h2 h3 h4])
    moreover have "?chunk @ drop (offset src + ?n) (data src) = drop (offset src) (data src)"
      by (metis add.commute append_take_drop_id drop_drop)
    moreover have "\<not> maxBytes < tot + ?n" using less.prems(3) by simp
    ultimately show ?thesis using pos tk
      by (subst consumeLoop.simps) (simp add: VectorByteSource_read_Inr del: take_append)
  qed
qed

section \<open>Properties of the sniffer and the comparator\<close>

lemma find_str_sublist: "find_str hay needle \<noteq> None \<longleftrightarrow> sublist needle hay"
proof (induction hay)
  case Nil
  then show ?case by simp
next
  case (Cons c cs)
  have "take (length needle) (c # cs) = needle \<longleftrightarrow> prefix needle (c # cs)"
    by (metis prefix_def append_eq_conv_conj append_take_drop_id)
  then show ?case using Cons
    by (cases needle) (auto simp: sublist_Cons_right)
qed

lemma find_char_takeWhile:
  "substr s 0 (find_char s ch) = takeWhile (\<lambda>c. c \<noteq> ch) s"
  by (induction s) (auto simp: substr_def split: option.splits)

lemma find_if_dropWhile: "drop (find_if (\<lambda>c. \<not> P c) xs) xs = dropWhile P xs"
  by (induction xs) auto

lemma find_if_takeWhile: "find_if (\<lambda>c. \<not> P c) xs = length (takeWhile P xs)"
  by (induction xs) auto

lemma erase_trailing:
  "take (length xs - find_if (\<lambda>c. \<not> P c) (rev xs)) xs = rev (dropWhile P (rev xs))"
proof -
  have "rev (dropWhile P (rev xs)) = rev (drop (length (takeWhile P (rev xs))) (rev xs))"
    by (simp add: dropWhile_eq_drop)
  also have "\<dots> = take (length xs - length (takeWhile P (rev xs))) xs"
    by (simp add: rev_drop)
  finally show ?thesis by (simp add: find_if_takeWhile)
qed

lemma stripMime_spec: "stripMime s = strip_spec s"
  by (simp only: stripMime_def strip_spec_def trim_def Let_def find_char_takeWhile
      find_if_dropWhile erase_trailing)

lemma isspace_nat: "isspace c \<longleftrightarrow> (of_char c :: nat) \<in> {9, 10, 11, 12, 13, 32}"
proof -
  have "\<And>d. c = d \<longleftrightarrow> (of_char c :: nat) = of_char d" by simp
  then show ?thesis unfolding isspace_def by (simp only:) auto
qed

lemma of_char_tolower:
  "(of_char (tolower c) :: nat) =
     (if 65 \<le> (of_char c :: nat) \<and> (of_char c :: nat) \<le> 90 then of_char c + 32 else of_char c)"
  by (simp add: tolower_def Let_def)

lemma semi_nat: "c = CHR '';'' \<longleftrightarrow> (of_char c :: nat) = 59"
proof -
  have "c = CHR '';'' \<longleftrightarrow> (of_char c :: nat) = of_char CHR '';''" by (simp only: of_char_eq_iff)
  then show ?thesis by simp
qed

lemma isspace_tolower: "isspace (tolower c) = isspace c"
  by (auto simp: isspace_nat of_char_tolower)

lemma tolower_semi: "tolower c = CHR '';'' \<longleftrightarrow> c = CHR '';''"
  by (auto simp: semi_nat of_char_tolower)

lemma tolower_idem: "tolower (tolower c) = tolower c"
proof -
  have "(of_char (tolower (tolower c)) :: nat) = of_char (tolower c)"
    by (simp add: of_char_tolower)
  then show ?thesis by (simp only: of_char_eq_iff)
qed

lemma trim_trimmed: "trimmed (trim s)"
proof -
  define v where "v = dropWhile isspace s"
  define w where "w = dropWhile isspace (rev v)"
  have u: "trim s = rev w" by (simp add: trim_def v_def w_def)
  show ?thesis
  proof (cases "w = []")
    case True
    with u show ?thesis by (simp add: trimmed_def)
  next
    case False
    then have hw: "\<not> isspace (hd w)" unfolding w_def by (rule hd_dropWhile)
    from False have vne: "v \<noteq> []" by (auto simp: w_def)
    then have hv: "\<not> isspace (hd v)" unfolding v_def by (rule hd_dropWhile)
    have "rev v = takeWhile isspace (rev v) @ w" by (simp add: w_def)
    with False have "last w = last (rev v)" by (metis last_appendR)
    with vne have lw: "last w = hd v" by (simp add: last_rev)
    from False hw hv lw show ?thesis
      by (simp add: u trimmed_def hd_rev last_rev)
  qed
qed

lemma trimmed_trim: "trimmed u \<Longrightarrow> trim u = u"
proof (cases "u = []")
  case True
  then show ?thesis by (simp add: trim_def)
next
  case False
  assume "trimmed u"
  with False have h: "\<not> isspace (hd u)" and l: "\<not> isspace (last u)" by (auto simp: trimmed_def)
  from False h have "dropWhile isspace u = u" by (cases u) auto
  moreover from False l have "dropWhile isspace (rev u) = rev u"
    by (cases "rev u") (auto simp: last_rev hd_rev)
  ultimately show ?thesis by (simp add: trim_def)
qed

lemma trimmed_map_tolower: "trimmed u \<Longrightarrow> trimmed (map tolower u)"
  by (auto simp: trimmed_def hd_map last_map isspace_tolower)

lemma takeWhile_all: "\<forall>x \<in> set xs. P x \<Longrightarrow> takeWhile P xs = xs"
  by (induction xs) auto

lemma set_trim: "set (trim s) \<subseteq> set s"
proof -
  have "set (trim s) = set (dropWhile isspace (rev (dropWhile isspace s)))" by (simp add: trim_def)
  also have "\<dots> \<subseteq> set (rev (dropWhile isspace s))" by (rule set_dropWhileD [THEN subsetI])
  also have "\<dots> \<subseteq> set s" using set_dropWhileD by fastforce
  finally show ?thesis .
qed

lemma strip_spec_idem: "strip_spec (strip_spec s) = strip_spec s"
proof -
  define t where "t = takeWhile (\<lambda>c. c \<noteq> CHR '';'') s"
  define u where "u = trim t"
  have nosemi: "\<forall>c \<in> set (map tolower u). c \<noteq> CHR '';''"
  proof
    fix c assume "c \<in> set (map tolower u)"
    then obtain d where d: "d \<in> set u" and c: "c = tolower d" by auto
    from d have "d \<in> set t" using set_trim [of t] by (auto simp: u_def)
    then have "d \<noteq> CHR '';''" unfolding t_def by (auto dest: set_takeWhileD)
    with c show "c \<noteq> CHR '';''" by (simp add: tolower_semi)
  qed
  have "strip_spec (strip_spec s) = map tolower (trim (takeWhile (\<lambda>c. c \<noteq> CHR '';'') (map tolower u)))"
    by (simp add: strip_spec_def t_def u_def)
  also have "takeWhile (\<lambda>c. c \<noteq> CHR '';'') (map tolower u) = map tolower u"
    using nosemi by (rule takeWhile_all)
  also have "trim (map tolower u) = map tolower u"
    by (rule trimmed_trim, rule trimmed_map_tolower, simp add: u_def trim_trimmed)
  also have "map tolower (map tolower u) = map tolower u"
    by (simp add: tolower_idem)
  finally show ?thesis by (simp add: strip_spec_def t_def u_def)
qed

lemma take_eq_nths4:
  "take 4 bs = [a, b, c, d] \<longleftrightarrow> 4 \<le> length bs \<and> bs ! 0 = a \<and> bs ! 1 = b \<and> bs ! 2 = c \<and> bs ! 3 = d"
proof (cases bs)
  case Nil then show ?thesis by simp
next
  case (Cons x1 r1)
  show ?thesis
  proof (cases r1)
    case Nil with Cons show ?thesis by simp
  next
    case (Cons x2 r2)
    note c2 = this
    show ?thesis
    proof (cases r2)
      case Nil with \<open>bs = x1 # r1\<close> c2 show ?thesis by simp
    next
      case (Cons x3 r3)
      with \<open>bs = x1 # r1\<close> c2 show ?thesis by (cases r3) auto
    qed
  qed
qed

lemma detectMime_spec:
  "detectMime bytes =
     (if take 4 bytes = map byte ''%PDF'' then ''application/pdf''
      else if take 8 bytes = [0x89, 0x50, 0x4E, 0x47, 0x0D, 0x0A, 0x1A, 0x0A] then ''image/png''
      else if take 4 bytes = [0x50, 0x4B, 0x03, 0x04] \<and>
              (sublist (map byte ''word/'') (take 4096 bytes) \<or>
               sublist (map byte ''[Content_Types].xml'') (take 4096 bytes))
      then ''application/vnd.openxmlformats-officedocument.wordprocessingml.document''
      else ''application/octet-stream'')"
proof -
  have pdf: "take 4 bytes = map byte ''%PDF'' \<longleftrightarrow>
      4 \<le> length bytes \<and> bytes ! 0 = byte CHR ''%'' \<and> bytes ! 1 = byte CHR ''P'' \<and>
          bytes ! 2 = byte CHR ''D'' \<and> bytes ! 3 = byte CHR ''F''"
    using take_eq_nths4 [of bytes "byte CHR ''%''" "byte CHR ''P''" "byte CHR ''D''" "byte CHR ''F''"]
    by simp
  have zip: "take 4 bytes = [0x50, 0x4B, 0x03, 0x04] \<longleftrightarrow>
      4 \<le> length bytes \<and> bytes ! 0 = byte CHR ''P'' \<and> bytes ! 1 = byte CHR ''K'' \<and>
          bytes ! 2 = 0x03 \<and> bytes ! 3 = 0x04"
    using take_eq_nths4 [of bytes "0x50" "0x4B" "0x03" "0x04"]
    by (simp add: byte_def)
  have png: "take 8 bytes = [0x89, 0x50, 0x4E, 0x47, 0x0D, 0x0A, 0x1A, 0x0A] \<longleftrightarrow>
      8 \<le> length bytes \<and> take (length pngMagic) bytes = pngMagic"
  proof -
    have "take 8 bytes = pngMagic \<Longrightarrow> 8 \<le> length bytes"
    proof -
      assume "take 8 bytes = pngMagic"
      then have "length (take 8 bytes) = 8" by (simp add: pngMagic_def)
      then show ?thesis by simp
    qed
    moreover have "length pngMagic = 8" by (simp add: pngMagic_def)
    ultimately have "take 8 bytes = pngMagic \<longleftrightarrow>
        8 \<le> length bytes \<and> take (length pngMagic) bytes = pngMagic"
      by (simp only:) blast
    then show ?thesis by (simp only: pngMagic_def)
  qed
  have sig: "take (min (length bytes) 4096) bytes = take 4096 bytes" by (simp add: min_def)
  show ?thesis
    unfolding detectMime_def Let_def sig find_str_sublist pdf [symmetric] png [symmetric] zip
    by (simp only: conj_assoc)
qed

section \<open>Properties of the ingest operation\<close>

lemma isAcceptedMime_iff:
  "isAcceptedMime detected accepted \<longleftrightarrow> (\<exists>c \<in> set accepted. equalsIgnoreParams detected c)"
  by (induction accepted) auto


lemma sint_of_nat_u64:
  "n \<le> INT64_MAX \<Longrightarrow> sint (of_nat n :: u64) = int n"
  by (simp add: signed_of_nat signed_take_bit_int_eq_self INT64_MAX_def)

lemma consumeToBuffer_VectorByteSource:
  "length d \<le> maxBytes \<Longrightarrow>
   consumeToBuffer (VectorByteSource_read :: (VectorByteSource, 'e) ByteSource)
     \<lparr>data = d, offset = 0\<rparr> maxBytes = Some (Inr (d, \<lparr>data = d, offset = length d\<rparr>))"
  using consumeLoop_VectorByteSource
    [where src = "\<lparr>data = d, offset = 0\<rparr>" and scratch = "replicate (64 * 1024) 0"
       and tot = 0 and maxBytes = maxBytes and buf = "[]"]
  by (simp add: consumeToBuffer_def)



lemma strip_pdf: "stripMime ''application/pdf'' = ''application/pdf''"
  by code_simp





lemma yielded_three:
  "yielded (VectorByteSource_read :: (VectorByteSource, unit) ByteSource) (Suc (Suc 0))
     \<lparr>data = [1, 2, 3], offset = 0\<rparr> (replicate (64 * 1024) 0) =
   ([(3, [1, 2, 3])], Eof \<lparr>data = [1, 2, 3], offset = 3\<rparr>)"
  by (simp add: VectorByteSource_read_Inr)

section \<open>The claims\<close>



text \<open>
C3: starting from any list of errors, the validator appends exactly the violations of the
four rules, in the fixed order: declared length negative, else declared length different from the
measured size; measured size above a non-negative maximum; claimed type non-empty and different
from the detected type under the comparator; accepted list non-empty and matching the detected
type nowhere. No rule depends on another, and no message occurs twice.
\<close>

theorem validator_rules:
  "validateMime meta detected accepted (validateLengths meta sz maxLen errs) =
     errs
     @ (if hasContentLength meta
        then (if sint (contentLength meta) < 0 then [''contentLength is negative'']
              else if contentLength meta \<noteq> sz then [''contentLength mismatch''] else [])
        else [])
     @ (if 0 \<le> sint maxLen \<and> sint maxLen < sint sz then [''exceeds maxContentLength''] else [])
     @ (if claimedMime meta \<noteq> [] \<and> strip_spec (claimedMime meta) \<noteq> strip_spec detected
        then [''claimedMime does not match detectedMime''] else [])
     @ (if accepted \<noteq> [] \<and> (\<forall>c \<in> set accepted. strip_spec detected \<noteq> strip_spec c)
        then [''detectedMime not accepted''] else [])
   \<and> distinct (validateMime meta detected accepted (validateLengths meta sz maxLen []))"
  by (auto simp: validateMime_def validateLengths_def Let_def isAcceptedMime_iff
      equalsIgnoreParams_def stripMime_spec)

text \<open>
A declared length of 11 for 10 bytes, a maximum of 5, a claimed PNG for a detected PDF that is
accepted: three violations, in rule order.
\<close>

theorem validator_rules_witness:
  "validateMime
     \<lparr>filename = ''a.pdf'', claimedMime = ''image/png'', hasContentLength = True, contentLength = 11\<rparr>
     ''application/pdf'' [''application/pdf'']
     (validateLengths
        \<lparr>filename = ''a.pdf'', claimedMime = ''image/png'', hasContentLength = True, contentLength = 11\<rparr>
        10 5 []) =
   [''contentLength mismatch'', ''exceeds maxContentLength'',
    ''claimedMime does not match detectedMime'']"
proof -
  have a: "strip_spec ''image/png'' = ''image/png''"
    unfolding stripMime_spec [symmetric] by code_simp
  have b: "strip_spec ''application/pdf'' = ''application/pdf''"
    unfolding stripMime_spec [symmetric] by code_simp
  show ?thesis
    using validator_rules [of
      "\<lparr>filename = ''a.pdf'', claimedMime = ''image/png'', hasContentLength = True, contentLength = 11\<rparr>"
      "''application/pdf''" "[''application/pdf'']" 10 5 "[]"]
    by (simp add: a b)
qed

text \<open>
C4: \<open>detectMime\<close> returns a classification for every buffer, by first match: PDF
magic, PNG magic, ZIP magic with "word/" or "[Content_Types].xml" occurring in the first 4096
bytes, and octet-stream otherwise, in particular for every buffer shorter than four bytes.
\<close>

theorem detectMime_priority:
  "detectMime bytes =
     (if take 4 bytes = map byte ''%PDF'' then ''application/pdf''
      else if take 8 bytes = [0x89, 0x50, 0x4E, 0x47, 0x0D, 0x0A, 0x1A, 0x0A] then ''image/png''
      else if take 4 bytes = [0x50, 0x4B, 0x03, 0x04] \<and>
              (sublist (map byte ''word/'') (take 4096 bytes) \<or>
               sublist (map byte ''[Content_Types].xml'') (take 4096 bytes))
      then ''application/vnd.openxmlformats-officedocument.wordprocessingml.document''
      else ''application/octet-stream'')
   \<and> (length bytes < 4 \<longrightarrow> detectMime bytes = ''application/octet-stream'')"
proof
  show "detectMime bytes =
     (if take 4 bytes = map byte ''%PDF'' then ''application/pdf''
      else if take 8 bytes = [0x89, 0x50, 0x4E, 0x47, 0x0D, 0x0A, 0x1A, 0x0A] then ''image/png''
      else if take 4 bytes = [0x50, 0x4B, 0x03, 0x04] \<and>
              (sublist (map byte ''word/'') (take 4096 bytes) \<or>
               sublist (map byte ''[Content_Types].xml'') (take 4096 bytes))
      then ''application/vnd.openxmlformats-officedocument.wordprocessingml.document''
      else ''application/octet-stream'')"
    by (rule detectMime_spec)
  show "length bytes < 4 \<longrightarrow> detectMime bytes = ''application/octet-stream''"
    by (simp add: detectMime_def)
qed

text \<open>
A two-byte buffer, a PDF header and a ZIP header followed by a "word/" entry.
\<close>

theorem detectMime_priority_witness:
  "length [0x50, 0x4B :: u8] < 4 \<and> detectMime [0x50, 0x4B] = ''application/octet-stream'' \<and>
   detectMime (map byte ''%PDF-1.7'') = ''application/pdf'' \<and>
   detectMime ([0x50, 0x4B, 0x03, 0x04] @ map byte ''..word/document.xml'') =
     ''application/vnd.openxmlformats-officedocument.wordprocessingml.document''"
proof -
  have s: "sublist (map byte ''word/'') (take 4096 ([0x50, 0x4B, 0x03, 0x04] @ map byte ''..word/document.xml''))"
    by (simp add: byte_def sublist_Cons_right)
  show ?thesis
    using detectMime_priority [of "[0x50, 0x4B]"] detectMime_priority [of "map byte ''%PDF-1.7''"]
      detectMime_priority [of "[0x50, 0x4B, 0x03, 0x04] @ map byte ''..word/document.xml''"] s
    by (simp add: byte_def)
qed

text \<open>
C5: \<open>consumeToBuffer\<close> throws the ceiling error exactly when, after some number of
reads, the running total of the counts returned exceeds \<open>maxBytes\<close>, whatever the source
would do afterwards (so the check is made read by read); and it returns a buffer exactly when the
source signals end of stream with the total within the ceiling, the buffer being the concatenation
of the chunks read, in order.
\<close>

theorem consumeToBuffer_ceiling_incremental:
  fixes read :: "('s, 'e) ByteSource"
  shows "(consumeToBuffer read src maxBytes = Some (Inl BufferCeiling) \<longleftrightarrow>
            (\<exists>n. maxBytes < running_total (fst (yielded read n src (replicate (64 * 1024) 0))))) \<and>
         (consumeToBuffer read src maxBytes = Some (Inr (buf, src')) \<longleftrightarrow>
            (\<exists>n rs. yielded read n src (replicate (64 * 1024) 0) = (rs, Eof src') \<and>
                    buf = chunks_of rs \<and> running_total rs \<le> maxBytes))"
proof (intro conjI iffI)
  assume "consumeToBuffer read src maxBytes = Some (Inl BufferCeiling)"
  then have "consumeLoop read maxBytes src (replicate (64 * 1024) 0) 0 [] = Some (Inl BufferCeiling)"
    by (simp add: consumeToBuffer_def)
  from consumeLoop_trace [OF this] obtain n rs p where
    "yielded read n src (replicate (64 * 1024) 0) = (rs, p)" and "maxBytes < running_total rs"
    by auto
  then have "maxBytes < running_total (fst (yielded read n src (replicate (64 * 1024) 0)))" by simp
  then show "\<exists>n. maxBytes < running_total (fst (yielded read n src (replicate (64 * 1024) 0)))" ..
next
  assume "\<exists>n. maxBytes < running_total (fst (yielded read n src (replicate (64 * 1024) 0)))"
  then obtain n where n: "maxBytes < running_total (fst (yielded read n src (replicate (64 * 1024) 0)))" ..
  obtain rs p where y: "yielded read n src (replicate (64 * 1024) 0) = (rs, p)"
    by (cases "yielded read n src (replicate (64 * 1024) 0)") auto
  with n have "maxBytes < 0 + running_total rs" by simp
  from consumeLoop_ceiling [OF y this]
  show "consumeToBuffer read src maxBytes = Some (Inl BufferCeiling)"
    by (simp add: consumeToBuffer_def)
next
  assume "consumeToBuffer read src maxBytes = Some (Inr (buf, src'))"
  then have "consumeLoop read maxBytes src (replicate (64 * 1024) 0) 0 [] = Some (Inr (buf, src'))"
    by (simp add: consumeToBuffer_def)
  from consumeLoop_trace [OF this]
  show "\<exists>n rs. yielded read n src (replicate (64 * 1024) 0) = (rs, Eof src') \<and>
                buf = chunks_of rs \<and> running_total rs \<le> maxBytes"
    by auto
next
  assume "\<exists>n rs. yielded read n src (replicate (64 * 1024) 0) = (rs, Eof src') \<and>
                buf = chunks_of rs \<and> running_total rs \<le> maxBytes"
  then obtain n rs where y: "yielded read n src (replicate (64 * 1024) 0) = (rs, Eof src')"
    and b: "buf = chunks_of rs" and t: "0 + running_total rs \<le> maxBytes" by auto
  from consumeLoop_eof [OF y t, of "[]"] b
  show "consumeToBuffer read src maxBytes = Some (Inr (buf, src'))"
    by (simp add: consumeToBuffer_def)
qed

text \<open>
Three bytes in memory: a ceiling of 2 is exceeded, a ceiling of 3 is not.
\<close>

theorem consumeToBuffer_ceiling_incremental_witness:
  "consumeToBuffer (VectorByteSource_read :: (VectorByteSource, unit) ByteSource)
     \<lparr>data = [1, 2, 3], offset = 0\<rparr> 2 = Some (Inl BufferCeiling) \<and>
   consumeToBuffer (VectorByteSource_read :: (VectorByteSource, unit) ByteSource)
     \<lparr>data = [1, 2, 3], offset = 0\<rparr> 3 = Some (Inr ([1, 2, 3], \<lparr>data = [1, 2, 3], offset = 3\<rparr>))"
proof -
  let ?rd = "VectorByteSource_read :: (VectorByteSource, unit) ByteSource"
  let ?src = "\<lparr>data = [1, 2, 3], offset = 0\<rparr>"
  have "\<exists>n. 2 < running_total (fst (yielded ?rd n ?src (replicate (64 * 1024) 0)))"
    by (rule exI [of _ "Suc (Suc 0)"]) (simp only: yielded_three, simp)
  moreover have "\<exists>n rs. yielded ?rd n ?src (replicate (64 * 1024) 0) =
        (rs, Eof \<lparr>data = [1, 2, 3], offset = 3\<rparr>) \<and> [1, 2, 3] = chunks_of rs \<and> running_total rs \<le> 3"
    by (rule exI [of _ "Suc (Suc 0)"], rule exI [of _ "[(3, [1, 2, 3])]"]) (simp only: yielded_three, simp)
  ultimately show ?thesis
    using consumeToBuffer_ceiling_incremental [of ?rd ?src 2]
      consumeToBuffer_ceiling_incremental [of ?rd ?src 3 "[1, 2, 3]" "\<lparr>data = [1, 2, 3], offset = 3\<rparr>"]
    by blast
qed





text \<open>
C8, as stated, fails: a call with \<open>maxLen = 0\<close> returns 0 although a byte of the backing
sequence has not been yielded.
\<close>

theorem VectorByteSource_read_zero_before_end:
  "(VectorByteSource_read \<lparr>data = [7], offset = 0\<rparr> [] 0 :: unit + (nat \<times> u8 list \<times> VectorByteSource))
     = Inr (0, [], \<lparr>data = [7], offset = 0\<rparr>) \<and>
   offset \<lparr>data = [7], offset = 0\<rparr> < length (data \<lparr>data = [7 :: u8], offset = 0\<rparr>)"
  by (simp add: VectorByteSource_read_def)

text \<open>
C8 (amended): after any sequence of \<open>read\<close> calls on an in-memory source, the bytes yielded
so far are the prefix of the backing sequence up to the cursor, and the next call returns
\<open>n = min maxLen remaining\<close>, never more than \<open>maxLen\<close>, copies the \<open>n\<close> bytes at the
cursor to the start of the buffer, leaves the rest of the buffer alone, advances the cursor by
\<open>n\<close>, and returns 0 exactly when every byte has been yielded or \<open>maxLen = 0\<close>.
\<close>

theorem VectorByteSource_read_contract:
  "\<exists>chunks src'.
      read_calls (VectorByteSource_read :: (VectorByteSource, 'e) ByteSource)
        \<lparr>data = d, offset = 0\<rparr> calls = Inr (chunks, src') \<and>
      data src' = d \<and> offset src' = length (concat chunks) \<and>
      concat chunks = take (offset src') d \<and>
      (\<exists>n buffer' src''.
          (VectorByteSource_read :: (VectorByteSource, 'e) ByteSource) src' buffer maxLen
             = Inr (n, buffer', src'') \<and>
          n \<le> maxLen \<and> n = min maxLen (length d - offset src') \<and>
          buffer' = take n (drop (offset src') d) @ drop n buffer \<and>
          data src'' = d \<and> offset src'' = offset src' + n \<and>
          (n = 0 \<longleftrightarrow> concat chunks = d \<or> maxLen = 0))"
proof -
  have "offset \<lparr>data = d, offset = 0\<rparr> \<le> length (data \<lparr>data = d, offset = 0\<rparr>)" by simp
  from read_calls_VectorByteSource [OF this, of calls] obtain chunks src' where
    rc: "read_calls (VectorByteSource_read :: (VectorByteSource, 'e) ByteSource)
           \<lparr>data = d, offset = 0\<rparr> calls = Inr (chunks, src')" and
    dd: "data src' = d" and oo: "offset src' = length (concat chunks)" and
    le: "offset src' \<le> length d" and
    cc: "concat chunks = take (length (concat chunks)) d"
    by (elim exE conjE) simp
  let ?n = "min maxLen (length d - offset src')"
  have rd: "(VectorByteSource_read src' buffer maxLen :: 'e + (nat \<times> u8 list \<times> VectorByteSource)) =
      Inr (?n, take ?n (drop (offset src') d) @ drop ?n buffer, src'\<lparr>offset := offset src' + ?n\<rparr>)"
    by (simp add: VectorByteSource_read_Inr dd)
  have z: "?n = 0 \<longleftrightarrow> concat chunks = d \<or> maxLen = 0"
  proof -
    have "concat chunks = d \<longleftrightarrow> offset src' = length d"
    proof
      assume "concat chunks = d" with oo show "offset src' = length d" by simp
    next
      assume "offset src' = length d"
      with oo have "take (length (concat chunks)) d = d" by simp
      with cc show "concat chunks = d" by (rule trans)
    qed
    with le show ?thesis by (auto simp: min_def)
  qed
  from cc have cc': "concat chunks = take (offset src') d" by (simp only: oo)
  show ?thesis
    apply (rule exI [of _ chunks], rule exI [of _ src'])
    apply (intro conjI rc dd oo cc')
    apply (rule exI [of _ ?n], rule exI [of _ "take ?n (drop (offset src') d) @ drop ?n buffer"],
        rule exI [of _ "src'\<lparr>offset := offset src' + ?n\<rparr>"])
    using z apply (simp add: rd dd)
    done
qed

text \<open>
Three bytes, one read of two bytes, then another.
\<close>

theorem VectorByteSource_read_contract_witness:
  "\<exists>chunks src'.
      read_calls (VectorByteSource_read :: (VectorByteSource, unit) ByteSource)
        \<lparr>data = [1, 2, 3], offset = 0\<rparr> [(replicate 2 0, 2)] = Inr (chunks, src') \<and>
      data src' = [1, 2, 3] \<and> offset src' = length (concat chunks) \<and>
      concat chunks = take (offset src') [1, 2, 3] \<and>
      (\<exists>n buffer' src''.
          (VectorByteSource_read :: (VectorByteSource, unit) ByteSource) src' (replicate 2 0) 2
             = Inr (n, buffer', src'') \<and>
          n \<le> 2 \<and> n = min 2 (length [1, 2, 3 :: u8] - offset src') \<and>
          buffer' = take n (drop (offset src') [1, 2, 3]) @ drop n (replicate 2 0) \<and>
          data src'' = [1, 2, 3] \<and> offset src'' = offset src' + n \<and>
          (n = 0 \<longleftrightarrow> concat chunks = [1, 2, 3] \<or> (2 :: nat) = 0))"
  by (rule VectorByteSource_read_contract)

text \<open>
C9: the comparator holds exactly when the two strings are equal after cutting at the first
semicolon, trimming and lower-casing; it is reflexive, symmetric and transitive; and
\<open>stripMime\<close> is idempotent.
\<close>

theorem equalsIgnoreParams_equivalence:
  "(equalsIgnoreParams a b \<longleftrightarrow> strip_spec a = strip_spec b) \<and>
   equalsIgnoreParams a a \<and>
   (equalsIgnoreParams a b \<longrightarrow> equalsIgnoreParams b a) \<and>
   (equalsIgnoreParams a b \<and> equalsIgnoreParams b c \<longrightarrow> equalsIgnoreParams a c) \<and>
   stripMime (stripMime s) = stripMime s"
  by (simp add: equalsIgnoreParams_def stripMime_spec strip_spec_idem)

text \<open>
Three spellings of text/html.
\<close>

theorem equalsIgnoreParams_equivalence_witness:
  "equalsIgnoreParams '' Text/HTML ; charset=utf-8'' ''text/html'' \<and>
   equalsIgnoreParams ''text/html'' ''TEXT/html;q=1'' \<and>
   equalsIgnoreParams ''text/html'' '' Text/HTML ; charset=utf-8'' \<and>
   equalsIgnoreParams '' Text/HTML ; charset=utf-8'' ''TEXT/html;q=1'' \<and>
   stripMime (stripMime '' Text/HTML ; charset=utf-8'') = stripMime '' Text/HTML ; charset=utf-8''"
proof -
  have a: "equalsIgnoreParams '' Text/HTML ; charset=utf-8'' ''text/html''" by code_simp
  have b: "equalsIgnoreParams ''text/html'' ''TEXT/html;q=1''" by code_simp
  from a b show ?thesis
    using equalsIgnoreParams_equivalence
      [of "'' Text/HTML ; charset=utf-8''" "''text/html''" "''TEXT/html;q=1''"
          "'' Text/HTML ; charset=utf-8''"]
    by blast
qed

text \<open>
C10: once the source is consumed, a buffer longer than the largest \<open>int64_t\<close> makes
\<open>ingest\<close> throw the range error with no call to the sink; a buffer within range never
takes that branch, and the size reported is the length of the buffer, hence not negative.
\<close>

theorem ingest_payload_range:
  assumes "consumeToBuffer read source SIZE_MAX = Some (Inr (buffer, source'))"
  shows "(INT64_MAX < length buffer \<longrightarrow>
            ingest meta cfg read source persist sink = Some (Inl PayloadRange, [])) \<and>
         (length buffer \<le> INT64_MAX \<longrightarrow>
            (\<exists>out result. ingest meta cfg read source persist sink =
                Some (out, [(meta, result, \<lparr>data = buffer, offset = 0\<rparr>)]) \<and>
              out \<noteq> Inl PayloadRange \<and>
              sint (size_result result) = int (length buffer) \<and> 0 \<le> sint (size_result result)))"
  using assms
  by (auto simp: ingest_def Let_def sint_of_nat_u64 split: sum.splits)

text \<open>
A buffer of \<open>2 ^ 63\<close> zero bytes is out of range.
\<close>

theorem ingest_payload_range_witness:
  "consumeToBuffer (VectorByteSource_read :: (VectorByteSource, unit) ByteSource)
      \<lparr>data = replicate (2 ^ 63) 0, offset = 0\<rparr> SIZE_MAX =
        Some (Inr (replicate (2 ^ 63) 0, \<lparr>data = replicate (2 ^ 63) 0, offset = 2 ^ 63\<rparr>)) \<and>
   INT64_MAX < length (replicate (2 ^ 63) (0 :: u8)) \<and>
   ingest tinyMeta tinyCfg (VectorByteSource_read :: (VectorByteSource, unit) ByteSource)
      \<lparr>data = replicate (2 ^ 63) 0, offset = 0\<rparr> RecordingSink_persist emptySink =
        Some (Inl PayloadRange, [])"
proof -
  have len: "length (replicate (2 ^ 63) (0 :: u8)) = 2 ^ 63" by (rule length_replicate)
  have c: "consumeToBuffer (VectorByteSource_read :: (VectorByteSource, unit) ByteSource)
      \<lparr>data = replicate (2 ^ 63) 0, offset = 0\<rparr> SIZE_MAX =
        Some (Inr (replicate (2 ^ 63) 0, \<lparr>data = replicate (2 ^ 63) 0, offset = 2 ^ 63\<rparr>))"
  proof -
    have "length (replicate (2 ^ 63) (0 :: u8)) \<le> SIZE_MAX"
      unfolding len SIZE_MAX_def by simp
    from consumeToBuffer_VectorByteSource [OF this] show ?thesis unfolding len .
  qed
  have l: "INT64_MAX < length (replicate (2 ^ 63) (0 :: u8))"
    unfolding len INT64_MAX_def by simp
  from ingest_payload_range [OF c, of tinyMeta tinyCfg RecordingSink_persist emptySink] l c
  show ?thesis by blast
qed

end
